theory Spec2Isabelle
  imports Complex_Main "HOL-Library.Multiset"
begin

section \<open>Benford analysis: the analysis core of the two report scripts\<close>

text \<open>
  The development embeds \<^verbatim>\<open>scripts/benford_analysis.py\<close> and
  \<^verbatim>\<open>scripts/benford_excel_report.py\<close>. Both scripts carry their own copy of
  \<^verbatim>\<open>leading_digit\<close>, \<^verbatim>\<open>expected_benford_distribution\<close> and
  \<^verbatim>\<open>analyze_numeric_column\<close>; the copy of the Excel script has the suffix
  \<open>_xl\<close> here.

  Numbers. A Python float is a finite value, an infinity or NaN. Finite values are
  taken as real numbers and their arithmetic as exact: rounding to 53 bits is not part
  of the model. Where the repeated multiplication by ten of \<^verbatim>\<open>leading_digit\<close> rounds
  to a value just below the exact one (\<open>0.0003\<close> becomes \<open>2.999999999999999\<close>, and
  \<open>1e-13\<close> becomes \<open>9.999999999999998\<close>), the script reads the digit of the rounded
  value (\<open>2\<close> and \<open>9\<close>) where the model has the exact one (\<open>3\<close> and \<open>1\<close>); the
  digit is between \<open>1\<close> and \<open>9\<close> either way. Python integers are \<open>int\<close>.
\<close>

subsection \<open>Python values and exceptions\<close>

datatype error = TypeError | ValueError | KeyError

datatype pyfloat = Finite real | PosInf | NegInf | NaN

text \<open>
  A cell value handed to \<^verbatim>\<open>leading_digit\<close>:
  \<^item> \<open>Missing\<close>: \<^verbatim>\<open>None\<close>, \<^verbatim>\<open>pd.NA\<close>, \<^verbatim>\<open>pd.NaT\<close>;
  \<^item> \<open>Number f\<close>: the float \<open>f\<close> (NaN included), or an int that
    \<^verbatim>\<open>float()\<close> converts to \<open>f\<close>;
  \<^item> \<open>NumericText f\<close>: a string that \<^verbatim>\<open>float()\<close> parses to \<open>f\<close>, such as
    \<^verbatim>\<open>'12.5'\<close>, \<^verbatim>\<open>'inf'\<close> or \<^verbatim>\<open>'nan'\<close>; a string is never missing
    for \<^verbatim>\<open>pd.isna\<close>;
  \<^item> \<open>Text\<close>: a string that \<^verbatim>\<open>float()\<close> rejects with \<^verbatim>\<open>ValueError\<close>;
  \<^item> \<open>Object\<close>: any other scalar, which \<^verbatim>\<open>float()\<close> rejects with \<^verbatim>\<open>TypeError\<close>.

  The parameter of \<^verbatim>\<open>leading_digit\<close> is declared a float, and the columns the
  scripts analyse have a numeric dtype. An int beyond the range of a float, on which
  \<^verbatim>\<open>float()\<close> raises \<^verbatim>\<open>OverflowError\<close>, is not among these values.
\<close>

datatype scalar = Missing | Number pyfloat | NumericText pyfloat | Text | Object

fun bind_err :: "error + 'a \<Rightarrow> ('a \<Rightarrow> error + 'b) \<Rightarrow> error + 'b" where
  "bind_err (Inl e) f = Inl e"
| "bind_err (Inr x) f = f x"

text \<open>\<^verbatim>\<open>pd.isna(value)\<close> on a scalar.\<close>

fun pd_isna :: "scalar \<Rightarrow> bool" where
  "pd_isna Missing = True"
| "pd_isna (Number NaN) = True"
| "pd_isna _ = False"

text \<open>\<^verbatim>\<open>float(value)\<close>.\<close>

fun py_float :: "scalar \<Rightarrow> error + pyfloat" where
  "py_float (Number f) = Inr f"
| "py_float (NumericText f) = Inr f"
| "py_float Text = Inl ValueError"
| "py_float Object = Inl TypeError"
| "py_float Missing = Inl TypeError"

text \<open>\<^verbatim>\<open>number == 0\<close> and \<^verbatim>\<open>abs(number)\<close>.\<close>

fun float_eq_zero :: "pyfloat \<Rightarrow> bool" where
  "float_eq_zero (Finite x) = (x = 0)"
| "float_eq_zero _ = False"

fun float_abs :: "pyfloat \<Rightarrow> pyfloat" where
  "float_abs (Finite x) = Finite \<bar>x\<bar>"
| "float_abs PosInf = PosInf"
| "float_abs NegInf = PosInf"
| "float_abs NaN = NaN"

text \<open>
  The loop \<^verbatim>\<open>while number < 1: number *= 10\<close> on a finite float. The source
  reaches it with \<open>number > 0\<close> only (the absolute value of a float that is neither
  zero nor NaN); the guard \<open>0 < x\<close> writes that down, so that the recursion is total.
\<close>

function times_ten_loop :: "real \<Rightarrow> real" where
  "times_ten_loop x = (if 0 < x \<and> x < 1 then times_ten_loop (x * 10) else x)"
  by pat_completeness auto
termination
proof (relation "measure (\<lambda>x. nat \<lceil>1 / x\<rceil>)")
  show "wf (measure (\<lambda>x::real. nat \<lceil>1 / x\<rceil>))" by simp
next
  fix x :: real
  assume a: "0 < x \<and> x < 1"
  define n where "n = \<lceil>1 / x\<rceil>"
  define m where "m = \<lceil>1 / (x * 10)\<rceil>"
  have "1 < 1 / x" using a by simp
  then have c: "2 \<le> n" unfolding n_def by linarith
  have "1 / x \<le> of_int n" unfolding n_def by simp
  then have "(1 / x) / 10 \<le> of_int (n - 1)" using c by simp
  then have "1 / (x * 10) \<le> of_int (n - 1)" by (simp only: divide_divide_eq_left)
  then have "m \<le> n - 1" unfolding m_def by (simp only: ceiling_le)
  then have "nat m < nat n" using c by linarith
  then show "(x * 10, x) \<in> measure (\<lambda>x. nat \<lceil>1 / x\<rceil>)"
    unfolding n_def m_def by (simp only: in_measure)
qed

declare times_ten_loop.simps [simp del]

text \<open>
  The same loop on any float: \<open>inf < 1\<close> and \<open>nan < 1\<close> are false, so the loop
  leaves them alone. (\<open>-inf\<close> never reaches the loop.)
\<close>

fun while_lt_one :: "pyfloat \<Rightarrow> pyfloat" where
  "while_lt_one (Finite x) = Finite (times_ten_loop x)"
| "while_lt_one f = f"

text \<open>
  \<^verbatim>\<open>str(number)[0]\<close>. Python prints a float in its shortest decimal form:
  \<open>inf\<close>, \<open>nan\<close>, a minus sign first for a negative value, \<open>0.\<close>\<dots> for zero
  and for values in \<open>[0.0001, 1)\<close>, and otherwise (plain or scientific notation) the
  first significant digit first. \<open>sig_digit_large\<close> reads that digit off a value of at
  least one, \<open>sig_digit_small\<close> off a positive value below one.
\<close>

function sig_digit_large :: "real \<Rightarrow> int" where
  "sig_digit_large x = (if 10 \<le> x then sig_digit_large (x / 10) else \<lfloor>x\<rfloor>)"
  by pat_completeness auto
termination
proof (relation "measure (\<lambda>x. nat \<lfloor>x\<rfloor>)")
  show "wf (measure (\<lambda>x::real. nat \<lfloor>x\<rfloor>))" by simp
next
  fix x :: real
  assume a: "10 \<le> x"
  then have "\<lfloor>x / 10\<rfloor> < \<lfloor>x\<rfloor>" by linarith
  moreover have "0 < \<lfloor>x\<rfloor>" using a by linarith
  ultimately show "(x / 10, x) \<in> measure (\<lambda>x. nat \<lfloor>x\<rfloor>)" by simp
qed

declare sig_digit_large.simps [simp del]

function sig_digit_small :: "real \<Rightarrow> int" where
  "sig_digit_small x = (if 0 < x \<and> x < 1 then sig_digit_small (x * 10) else \<lfloor>x\<rfloor>)"
  by pat_completeness auto
termination
proof (relation "measure (\<lambda>x. nat \<lceil>1 / x\<rceil>)")
  show "wf (measure (\<lambda>x::real. nat \<lceil>1 / x\<rceil>))" by simp
next
  fix x :: real
  assume a: "0 < x \<and> x < 1"
  define n where "n = \<lceil>1 / x\<rceil>"
  define m where "m = \<lceil>1 / (x * 10)\<rceil>"
  have "1 < 1 / x" using a by simp
  then have c: "2 \<le> n" unfolding n_def by linarith
  have "1 / x \<le> of_int n" unfolding n_def by simp
  then have "(1 / x) / 10 \<le> of_int (n - 1)" using c by simp
  then have "1 / (x * 10) \<le> of_int (n - 1)" by (simp only: divide_divide_eq_left)
  then have "m \<le> n - 1" unfolding m_def by (simp only: ceiling_le)
  then have "nat m < nat n" using c by linarith
  then show "(x * 10, x) \<in> measure (\<lambda>x. nat \<lceil>1 / x\<rceil>)"
    unfolding n_def m_def by (simp only: in_measure)
qed

declare sig_digit_small.simps [simp del]

definition digit_char :: "int \<Rightarrow> char" where
  "digit_char d =
     (if d = 1 then CHR ''1'' else if d = 2 then CHR ''2'' else if d = 3 then CHR ''3''
      else if d = 4 then CHR ''4'' else if d = 5 then CHR ''5'' else if d = 6 then CHR ''6''
      else if d = 7 then CHR ''7'' else if d = 8 then CHR ''8'' else if d = 9 then CHR ''9''
      else CHR ''0'')"

fun str_head :: "pyfloat \<Rightarrow> char" where
  "str_head NaN = CHR ''n''"
| "str_head PosInf = CHR ''i''"
| "str_head NegInf = CHR ''-''"
| "str_head (Finite x) =
     (if x < 0 then CHR ''-''
      else if x = 0 \<or> (1 / 10000 \<le> x \<and> x < 1) then CHR ''0''
      else if x < 1 then digit_char (sig_digit_small x)
      else digit_char (sig_digit_large x))"

text \<open>\<^verbatim>\<open>int(c)\<close> for a string of one character.\<close>

definition py_int :: "char \<Rightarrow> error + int" where
  "py_int c =
     (if c = CHR ''0'' then Inr 0 else if c = CHR ''1'' then Inr 1
      else if c = CHR ''2'' then Inr 2 else if c = CHR ''3'' then Inr 3
      else if c = CHR ''4'' then Inr 4 else if c = CHR ''5'' then Inr 5
      else if c = CHR ''6'' then Inr 6 else if c = CHR ''7'' then Inr 7
      else if c = CHR ''8'' then Inr 8 else if c = CHR ''9'' then Inr 9
      else Inl ValueError)"

subsection \<open>\<^verbatim>\<open>leading_digit\<close> (benford\_analysis.py)\<close>

text \<open>
  The result is \<open>Inl e\<close> when the call raises \<open>e\<close>, \<open>Inr None\<close> when it returns
  \<^verbatim>\<open>None\<close> and \<open>Inr (Some d)\<close> when it returns the digit \<open>d\<close>. Only the
  conversion \<^verbatim>\<open>float(value)\<close> is inside the \<^verbatim>\<open>try\<close>, and only
  \<^verbatim>\<open>TypeError\<close> and \<^verbatim>\<open>ValueError\<close> are caught there.
\<close>

definition leading_digit :: "scalar \<Rightarrow> error + int option" where
  "leading_digit v =
     (if pd_isna v then Inr None
      else case py_float v of
        Inl TypeError \<Rightarrow> Inr None
      | Inl ValueError \<Rightarrow> Inr None
      | Inl e \<Rightarrow> Inl e
      | Inr number \<Rightarrow>
          if float_eq_zero number then Inr None
          else
            let number = float_abs number;
                number = while_lt_one number
            in bind_err (py_int (str_head number))
                 (\<lambda>digit. if digit = 0 then Inr None else Inr (Some digit)))"

subsection \<open>\<^verbatim>\<open>expected_benford_distribution\<close> (benford\_analysis.py)\<close>

text \<open>
  A dict is an association list in insertion order; \<^verbatim>\<open>d[k]\<close> raises
  \<^verbatim>\<open>KeyError\<close> for a key that is not there. A pandas Series indexed by digits is
  an association list as well, label first. \<^verbatim>\<open>range(1, 10)\<close> is \<open>[1..9]\<close>.
\<close>

type_synonym 'a series = "(int \<times> 'a) list"

definition getitem :: "(int \<times> 'a) list \<Rightarrow> int \<Rightarrow> error + 'a" where
  "getitem d k = (case map_of d k of None \<Rightarrow> Inl KeyError | Some v \<Rightarrow> Inr v)"

definition expected_benford_distribution :: "(int \<times> real) list" where
  "expected_benford_distribution =
     map (\<lambda>digit. (digit, log 10 (1 + 1 / real_of_int digit))) [1..9]"

subsection \<open>The pandas operations the scripts call\<close>

text \<open>A loop or comprehension whose body may raise: the first exception ends it.\<close>

fun map_err :: "('a \<Rightarrow> error + 'b) \<Rightarrow> 'a list \<Rightarrow> error + 'b list" where
  "map_err f [] = Inr []"
| "map_err f (x # xs) =
     bind_err (f x) (\<lambda>y. bind_err (map_err f xs) (\<lambda>ys. Inr (y # ys)))"

text \<open>
  \<^verbatim>\<open>series.map(f)\<close> calls \<open>f\<close> on every cell, missing ones included, in row
  order. \<^verbatim>\<open>.dropna()\<close> removes the \<^verbatim>\<open>None\<close> results;
  \<^verbatim>\<open>.astype(int)\<close> leaves the digits as they are.
\<close>

definition series_map :: "('a \<Rightarrow> error + 'b) \<Rightarrow> 'a list \<Rightarrow> error + 'b list" where
  "series_map f series = map_err f series"

fun dropna :: "'a option list \<Rightarrow> 'a list" where
  "dropna [] = []"
| "dropna (None # xs) = dropna xs"
| "dropna (Some x # xs) = x # dropna xs"

text \<open>
  \<^verbatim>\<open>value_counts()\<close>: one entry per distinct value with its number of
  occurrences (pandas orders the entries by count; every use here reindexes them).
  \<^verbatim>\<open>reindex(labels, fill_value)\<close> and \<^verbatim>\<open>sort_index()\<close> follow.
\<close>

definition value_counts :: "int list \<Rightarrow> int series" where
  "value_counts digits = map (\<lambda>v. (v, int (count_list digits v))) (remdups digits)"

definition reindex :: "int list \<Rightarrow> 'a \<Rightarrow> 'a series \<Rightarrow> 'a series" where
  "reindex labels fill_value s =
     map (\<lambda>k. (k, case map_of s k of None \<Rightarrow> fill_value | Some v \<Rightarrow> v)) labels"

definition sort_index :: "'a series \<Rightarrow> 'a series" where
  "sort_index s = sort_key fst s"

text \<open>
  Arithmetic on Series: with a scalar, entry by entry; between two Series, label by
  label. Both operands carry the labels \<open>1..9\<close> in this order wherever the scripts
  combine two Series, so the entries are paired by position.
\<close>

definition series_div_scalar :: "int series \<Rightarrow> int \<Rightarrow> real series" where
  "series_div_scalar s total' = map (\<lambda>(k, c). (k, real_of_int c / real_of_int total')) s"

definition astype_float :: "int series \<Rightarrow> real series" where
  "astype_float s = map (\<lambda>(k, c). (k, real_of_int c)) s"

definition series_binop :: "('a \<Rightarrow> 'b \<Rightarrow> 'c) \<Rightarrow> 'a series \<Rightarrow> 'b series \<Rightarrow> 'c series" where
  "series_binop f a b = map2 (\<lambda>(k, x) (k', y). (k, f x y)) a b"

definition series_sq :: "real series \<Rightarrow> real series" where
  "series_sq s = map (\<lambda>(k, x). (k, x ^ 2)) s"

definition series_abs :: "real series \<Rightarrow> real series" where
  "series_abs s = map (\<lambda>(k, x). (k, \<bar>x\<bar>)) s"

definition series_sum :: "real series \<Rightarrow> real" where
  "series_sum s = sum_list (map snd s)"

definition series_sum_int :: "int series \<Rightarrow> int" where
  "series_sum_int s = sum_list (map snd s)"

definition series_mean :: "real series \<Rightarrow> real" where
  "series_mean s = sum_list (map snd s) / real (length s)"

subsection \<open>\<^verbatim>\<open>analyze_numeric_column\<close> (benford\_analysis.py)\<close>

record detail_row =
  row_sheet :: string
  row_column :: string
  row_digit :: int
  row_count :: int
  row_proportion :: real
  row_expected_proportion :: real
  row_difference :: real

record summary =
  sheet :: string
  column :: string
  total_values :: int
  chi_square :: real
  mad :: real

definition analyze_numeric_column ::
  "scalar list \<Rightarrow> string \<Rightarrow> string \<Rightarrow> error + (detail_row list \<times> summary)" where
  "analyze_numeric_column series sheet_name column_name =
     bind_err (series_map leading_digit series) (\<lambda>mapped.
       let digits = dropna mapped;
           total' = int (length digits);
           expected = expected_benford_distribution;
           counts = sort_index (reindex [1..9] 0 (value_counts digits));
           proportions = (if total' > 0 then series_div_scalar counts total'
                          else astype_float counts)
       in
       bind_err
         (map_err (\<lambda>digit.
            bind_err (getitem counts digit) (\<lambda>c.
            bind_err (if total' > 0 then getitem proportions digit else Inr 0) (\<lambda>p.
            bind_err (getitem expected digit) (\<lambda>e.
            bind_err (if total' > 0
                      then bind_err (getitem proportions digit) (\<lambda>q. Inr (q - e))
                      else Inr (- e)) (\<lambda>diff.
              Inr \<lparr>row_sheet = sheet_name, row_column = column_name, row_digit = digit,
                   row_count = c, row_proportion = p, row_expected_proportion = e,
                   row_difference = diff\<rparr>)))))
          [1..9])
         (\<lambda>detail_rows.
            bind_err
              (if total' > 0 then
                 bind_err
                   (map_err (\<lambda>digit.
                      bind_err (getitem expected digit)
                        (\<lambda>e. Inr (digit, e * real_of_int total'))) [1..9])
                   (\<lambda>expected_counts.
                      let chi_square =
                            series_sum
                              (series_binop (/)
                                 (series_sq (series_binop (-) (astype_float counts) expected_counts))
                                 expected_counts);
                          mad = series_mean (series_abs (series_binop (-) proportions expected))
                      in Inr (chi_square, mad))
               else Inr (0, 0))
              (\<lambda>(chi_square, mad).
                 Inr (detail_rows,
                      \<lparr>sheet = sheet_name, column = column_name, total_values = total',
                       chi_square = chi_square, mad = mad\<rparr>))))"

subsection \<open>The same three functions in benford\_excel\_report.py\<close>

text \<open>
  The Excel script defines \<^verbatim>\<open>leading_digit\<close>,
  \<^verbatim>\<open>expected_benford_distribution\<close> and \<^verbatim>\<open>analyze_numeric_column\<close>
  again (lines 19 to 79); they are embedded from that file, with the suffix \<open>_xl\<close>.
\<close>

function times_ten_loop_xl :: "real \<Rightarrow> real" where
  "times_ten_loop_xl x = (if 0 < x \<and> x < 1 then times_ten_loop_xl (x * 10) else x)"
  by pat_completeness auto
termination
proof (relation "measure (\<lambda>x. nat \<lceil>1 / x\<rceil>)")
  show "wf (measure (\<lambda>x::real. nat \<lceil>1 / x\<rceil>))" by simp
next
  fix x :: real
  assume a: "0 < x \<and> x < 1"
  define n where "n = \<lceil>1 / x\<rceil>"
  define m where "m = \<lceil>1 / (x * 10)\<rceil>"
  have "1 < 1 / x" using a by simp
  then have c: "2 \<le> n" unfolding n_def by linarith
  have "1 / x \<le> of_int n" unfolding n_def by simp
  then have "(1 / x) / 10 \<le> of_int (n - 1)" using c by simp
  then have "1 / (x * 10) \<le> of_int (n - 1)" by (simp only: divide_divide_eq_left)
  then have "m \<le> n - 1" unfolding m_def by (simp only: ceiling_le)
  then have "nat m < nat n" using c by linarith
  then show "(x * 10, x) \<in> measure (\<lambda>x. nat \<lceil>1 / x\<rceil>)"
    unfolding n_def m_def by (simp only: in_measure)
qed

declare times_ten_loop_xl.simps [simp del]

fun while_lt_one_xl :: "pyfloat \<Rightarrow> pyfloat" where
  "while_lt_one_xl (Finite x) = Finite (times_ten_loop_xl x)"
| "while_lt_one_xl f = f"

definition leading_digit_xl :: "scalar \<Rightarrow> error + int option" where
  "leading_digit_xl v =
     (if pd_isna v then Inr None
      else case py_float v of
        Inl TypeError \<Rightarrow> Inr None
      | Inl ValueError \<Rightarrow> Inr None
      | Inl e \<Rightarrow> Inl e
      | Inr number \<Rightarrow>
          if float_eq_zero number then Inr None
          else
            let number = float_abs number;
                number = while_lt_one_xl number
            in bind_err (py_int (str_head number))
                 (\<lambda>digit. if digit = 0 then Inr None else Inr (Some digit)))"

definition expected_benford_distribution_xl :: "(int \<times> real) list" where
  "expected_benford_distribution_xl =
     map (\<lambda>digit. (digit, log 10 (1 + 1 / real_of_int digit))) [1..9]"

definition analyze_numeric_column_xl ::
  "scalar list \<Rightarrow> string \<Rightarrow> string \<Rightarrow> error + (detail_row list \<times> summary)" where
  "analyze_numeric_column_xl series sheet_name column_name =
     bind_err (series_map leading_digit_xl series) (\<lambda>mapped.
       let digits = dropna mapped;
           total' = int (length digits);
           expected = expected_benford_distribution_xl;
           counts = sort_index (reindex [1..9] 0 (value_counts digits));
           proportions = (if total' > 0 then series_div_scalar counts total'
                          else astype_float counts)
       in
       bind_err
         (map_err (\<lambda>digit.
            bind_err (getitem counts digit) (\<lambda>c.
            bind_err (if total' > 0 then getitem proportions digit else Inr 0) (\<lambda>p.
            bind_err (getitem expected digit) (\<lambda>e.
            bind_err (if total' > 0
                      then bind_err (getitem proportions digit) (\<lambda>q. Inr (q - e))
                      else Inr (- e)) (\<lambda>diff.
              Inr \<lparr>row_sheet = sheet_name, row_column = column_name, row_digit = digit,
                   row_count = c, row_proportion = p, row_expected_proportion = e,
                   row_difference = diff\<rparr>)))))
          [1..9])
         (\<lambda>detail_rows.
            bind_err
              (if total' > 0 then
                 bind_err
                   (map_err (\<lambda>digit.
                      bind_err (getitem expected digit)
                        (\<lambda>e. Inr (digit, e * real_of_int total'))) [1..9])
                   (\<lambda>expected_counts.
                      let chi_square =
                            series_sum
                              (series_binop (/)
                                 (series_sq (series_binop (-) (astype_float counts) expected_counts))
                                 expected_counts);
                          mad = series_mean (series_abs (series_binop (-) proportions expected))
                      in Inr (chi_square, mad))
               else Inr (0, 0))
              (\<lambda>(chi_square, mad).
                 Inr (detail_rows,
                      \<lparr>sheet = sheet_name, column = column_name, total_values = total',
                       chi_square = chi_square, mad = mad\<rparr>))))"

subsection \<open>\<^verbatim>\<open>main\<close> of benford\_excel\_report.py: the tables\<close>

text \<open>
  The workbook as the script sees it after \<^verbatim>\<open>select_dtypes(include="number")\<close>:
  the sheets in order, each with its numeric columns in order, each column with its cells.
  \<^verbatim>\<open>numeric_cols.empty\<close> holds for a frame without columns or without rows.
\<close>

type_synonym frame = "(string \<times> scalar list) list"

type_synonym workbook = "(string \<times> frame) list"

definition frame_empty :: "frame \<Rightarrow> bool" where
  "frame_empty numeric_cols =
     (case numeric_cols of [] \<Rightarrow> True | (column_name, series) # rest \<Rightarrow> series = [])"

record tables =
  detail_frames :: "detail_row list list"
  summary_rows :: "summary list"
  all_digits :: "int list"

record overall_row =
  digit :: int
  actual_count :: int
  actual_percent :: real
  expected_percent :: real

text \<open>The inner loop, over the numeric columns of one sheet.\<close>

fun columns_loop_xl :: "string \<Rightarrow> tables \<Rightarrow> frame \<Rightarrow> error + tables" where
  "columns_loop_xl sheet_name st [] = Inr st"
| "columns_loop_xl sheet_name st ((column_name, series) # rest) =
     bind_err (series_map leading_digit_xl series) (\<lambda>mapped.
       let digits = dropna mapped;
           st1 = (if digits \<noteq> [] then st\<lparr>all_digits := all_digits st @ digits\<rparr> else st)
       in bind_err (analyze_numeric_column_xl series sheet_name column_name)
            (\<lambda>(detail_df, summary).
               columns_loop_xl sheet_name
                 (st1\<lparr>detail_frames := detail_frames st1 @ [detail_df],
                      summary_rows := summary_rows st1 @ [summary]\<rparr>)
                 rest))"

text \<open>The outer loop, over the sheets; a sheet whose numeric frame is empty is skipped.\<close>

fun sheets_loop_xl :: "tables \<Rightarrow> workbook \<Rightarrow> error + tables" where
  "sheets_loop_xl st [] = Inr st"
| "sheets_loop_xl st ((sheet_name, numeric_cols) # rest) =
     (if frame_empty numeric_cols then sheets_loop_xl st rest
      else bind_err (columns_loop_xl sheet_name st numeric_cols)
             (\<lambda>st'. sheets_loop_xl st' rest))"

text \<open>
  The tables \<^verbatim>\<open>main\<close> builds before it ranks and renders: the detail table,
  the summary table and the overall distribution (lines 108 to 147).
\<close>

definition main_xl ::
  "workbook \<Rightarrow> error + (detail_row list \<times> summary list \<times> overall_row list)" where
  "main_xl excel =
     bind_err
       (sheets_loop_xl \<lparr>detail_frames = [], summary_rows = [], all_digits = []\<rparr> excel)
       (\<lambda>st.
          let detail_df = concat (detail_frames st);
              summary_df = summary_rows st;
              expected = expected_benford_distribution_xl;
              all_digit_series = all_digits st;
              overall_counts = sort_index (reindex [1..9] 0 (value_counts all_digit_series));
              overall_total = series_sum_int overall_counts;
              overall_proportions =
                (if overall_total > 0 then series_div_scalar overall_counts overall_total
                 else astype_float overall_counts)
          in
          bind_err (map_err (\<lambda>digit. getitem overall_counts digit) [1..9]) (\<lambda>actual_counts.
          bind_err (map_err (\<lambda>digit. getitem overall_proportions digit) [1..9]) (\<lambda>actual_percents.
          bind_err (map_err (\<lambda>digit. getitem expected digit) [1..9]) (\<lambda>expected_percents.
            Inr (detail_df, summary_df,
                 map (\<lambda>(d, c, p, e).
                        \<lparr>digit = d, actual_count = c, actual_percent = p, expected_percent = e\<rparr>)
                   (zip [1..9] (zip actual_counts (zip actual_percents expected_percents))))))))"

subsection \<open>The ranking of both scripts\<close>

text \<open>
  Both \<^verbatim>\<open>main\<close> functions rank with
  \<^verbatim>\<open>summary_df.sort_values("mad", ascending=False).head(10)\<close>.
  \<^verbatim>\<open>sort_values\<close> is called without \<^verbatim>\<open>kind\<close>, so pandas sorts with
  its default, quicksort, which orders the rows by the key and promises nothing about
  rows with equal keys (only \<^verbatim>\<open>mergesort\<close> and \<^verbatim>\<open>stable\<close> do). The
  call is therefore a relation between the table and its possible results: any
  rearrangement of the rows that is non-increasing in \<open>mad\<close>.
\<close>

definition sort_values_mad_descending :: "summary list \<Rightarrow> summary list \<Rightarrow> bool" where
  "sort_values_mad_descending df sorted_df \<longleftrightarrow>
     mset sorted_df = mset df \<and> sorted_wrt (\<lambda>a b. mad b \<le> mad a) sorted_df"

definition head :: "nat \<Rightarrow> 'a list \<Rightarrow> 'a list" where
  "head n df = take n df"

inductive top_deviations :: "summary list \<Rightarrow> summary list \<Rightarrow> bool" where
  "sort_values_mad_descending summary_df sorted_df \<Longrightarrow>
   top_deviations summary_df (head 10 sorted_df)"

text \<open>
  What a stable ranking would add: among the rows of one \<open>mad\<close> value, the result
  lists the first ones of the input, in the order of the input.
\<close>

definition ties_keep_input_order :: "summary list \<Rightarrow> summary list \<Rightarrow> bool" where
  "ties_keep_input_order df ranked \<longleftrightarrow>
     (\<forall>m \<in> set (map mad ranked).
        filter (\<lambda>s. mad s = m) ranked =
        take (length (filter (\<lambda>s. mad s = m) ranked)) (filter (\<lambda>s. mad s = m) df))"

subsection \<open>Closed forms for stating the properties\<close>

text \<open>
  These definitions are not part of the scripts. \<open>benford\<close> is Benford's expected
  proportion of a digit; \<open>cell_digit\<close> is the digit \<^verbatim>\<open>leading_digit\<close> returns
  for a cell, if it returns one; \<open>digits_of\<close> lists the digits of a column in row
  order. \<open>detail_of\<close> and \<open>summary_of\<close> are the detail row of a digit and the
  summary, written as formulas over the digits of the column.
\<close>

definition benford :: "int \<Rightarrow> real" where
  "benford d = log 10 (1 + 1 / real_of_int d)"

definition cell_digit :: "scalar \<Rightarrow> int option" where
  "cell_digit v = (case leading_digit v of Inl e \<Rightarrow> None | Inr r \<Rightarrow> r)"

definition digits_of :: "scalar list \<Rightarrow> int list" where
  "digits_of series = dropna (map cell_digit series)"

definition detail_of :: "string \<Rightarrow> string \<Rightarrow> int list \<Rightarrow> int \<Rightarrow> detail_row" where
  "detail_of sheet_name column_name digits d =
     (let t = int (length digits); c = int (count_list digits d) in
      \<lparr>row_sheet = sheet_name, row_column = column_name, row_digit = d, row_count = c,
       row_proportion = (if t > 0 then real_of_int c / real_of_int t else 0),
       row_expected_proportion = benford d,
       row_difference = (if t > 0 then real_of_int c / real_of_int t - benford d else - benford d)\<rparr>)"

definition summary_of :: "string \<Rightarrow> string \<Rightarrow> int list \<Rightarrow> summary" where
  "summary_of sheet_name column_name digits =
     (let t = int (length digits) in
      \<lparr>sheet = sheet_name, column = column_name, total_values = t,
       chi_square =
         (if t > 0
          then (\<Sum>d\<leftarrow>[1..9]. (real_of_int (int (count_list digits d)) - benford d * real_of_int t)\<^sup>2
                              / (benford d * real_of_int t))
          else 0),
       mad =
         (if t > 0
          then (\<Sum>d\<leftarrow>[1..9]. \<bar>real_of_int (int (count_list digits d)) / real_of_int t - benford d\<bar>) / 9
          else 0)\<rparr>)"

text \<open>
  The columns \<^verbatim>\<open>main\<close> analyses, in order, each with the name of its sheet,
  and the digits of all of them pooled.
\<close>

definition analysed_columns :: "workbook \<Rightarrow> (string \<times> string \<times> scalar list) list" where
  "analysed_columns excel =
     concat (map (\<lambda>(sheet_name, numeric_cols).
                    if frame_empty numeric_cols then []
                    else map (\<lambda>(column_name, series). (sheet_name, column_name, series)) numeric_cols)
               excel)"

definition pooled_digits :: "workbook \<Rightarrow> int list" where
  "pooled_digits excel = concat (map (\<lambda>(sheet_name, column_name, series). digits_of series)
                                   (analysed_columns excel))"

definition raises :: "scalar list \<Rightarrow> bool" where
  "raises series \<longleftrightarrow> list_ex (\<lambda>v. leading_digit v = Inl ValueError) series"

text \<open>
  \<open>raises\<close> holds for a column with a cell on which \<^verbatim>\<open>leading_digit\<close> raises;
  \<open>overall_of\<close> is the row of the overall distribution for a digit, as a formula over
  the pooled digits of the workbook.
\<close>

definition overall_of :: "int list \<Rightarrow> int \<Rightarrow> overall_row" where
  "overall_of pooled d =
     (let t = int (length pooled); c = int (count_list pooled d) in
      \<lparr>digit = d, actual_count = c,
       actual_percent = (if t > 0 then real_of_int c / real_of_int t else 0),
       expected_percent = benford d\<rparr>)"

section \<open>Properties\<close>

subsection \<open>The leading digit\<close>

lemma times_ten_loop_ge_one: "0 < x \<Longrightarrow> 1 \<le> times_ten_loop x"
proof (induction x rule: times_ten_loop.induct)
  case (1 x)
  show ?case
  proof (cases "x < 1")
    case True
    with "1.prems" have "1 \<le> times_ten_loop (x * 10)" by (intro "1.IH") auto
    with True "1.prems" show ?thesis by (simp add: times_ten_loop.simps [of x])
  next
    case False
    then show ?thesis by (simp add: times_ten_loop.simps [of x])
  qed
qed

lemma sig_digit_large_range: "1 \<le> y \<Longrightarrow> 1 \<le> sig_digit_large y \<and> sig_digit_large y \<le> 9"
proof (induction y rule: sig_digit_large.induct)
  case (1 x)
  show ?case
  proof (cases "10 \<le> x")
    case True
    then have "1 \<le> sig_digit_large (x / 10) \<and> sig_digit_large (x / 10) \<le> 9"
      by (intro "1.IH") auto
    with True show ?thesis by (simp add: sig_digit_large.simps [of x])
  next
    case False
    with "1.prems" have "1 \<le> \<lfloor>x\<rfloor> \<and> \<lfloor>x\<rfloor> \<le> 9" by linarith
    with False show ?thesis by (simp add: sig_digit_large.simps [of x])
  qed
qed

lemma py_int_digit_char: "1 \<le> d \<Longrightarrow> d \<le> 9 \<Longrightarrow> py_int (digit_char d) = Inr d"
proof -
  assume "1 \<le> d" "d \<le> 9"
  then have "d = 1 \<or> d = 2 \<or> d = 3 \<or> d = 4 \<or> d = 5 \<or> d = 6 \<or> d = 7 \<or> d = 8 \<or> d = 9"
    by arith
  then show ?thesis by (auto simp: py_int_def digit_char_def)
qed

lemma digit_of_positive:
  assumes "0 < y"
  shows "py_int (str_head (while_lt_one (Finite y))) = Inr (sig_digit_large (times_ten_loop y))
         \<and> sig_digit_large (times_ten_loop y) \<noteq> 0"
proof -
  let ?y = "times_ten_loop y"
  have y: "1 \<le> ?y" using assms by (rule times_ten_loop_ge_one)
  have r: "1 \<le> sig_digit_large ?y \<and> sig_digit_large ?y \<le> 9"
    using y by (rule sig_digit_large_range)
  have s: "str_head (Finite ?y) = digit_char (sig_digit_large ?y)" using y by simp
  have "py_int (str_head (Finite ?y)) = Inr (sig_digit_large ?y)"
    unfolding s using r by (simp add: py_int_digit_char)
  then show ?thesis using r by simp
qed

lemma leading_digit_finite:
  assumes "x \<noteq> 0"
  shows "leading_digit (Number (Finite x)) = Inr (Some (sig_digit_large (times_ten_loop \<bar>x\<bar>)))"
    and "leading_digit (NumericText (Finite x)) = Inr (Some (sig_digit_large (times_ten_loop \<bar>x\<bar>)))"
proof -
  have p: "0 < \<bar>x\<bar>" using assms by simp
  note d = digit_of_positive [OF p]
  show "leading_digit (Number (Finite x)) = Inr (Some (sig_digit_large (times_ten_loop \<bar>x\<bar>)))"
    using assms d by (simp add: leading_digit_def Let_def)
  show "leading_digit (NumericText (Finite x)) = Inr (Some (sig_digit_large (times_ten_loop \<bar>x\<bar>)))"
    using assms d by (simp add: leading_digit_def Let_def)
qed

lemma leading_digit_cases:
  "leading_digit v =
     (case v of
        Number (Finite x) \<Rightarrow> if x = 0 then Inr None else Inr (Some (sig_digit_large (times_ten_loop \<bar>x\<bar>)))
      | Number PosInf \<Rightarrow> Inl ValueError
      | Number NegInf \<Rightarrow> Inl ValueError
      | Number NaN \<Rightarrow> Inr None
      | NumericText (Finite x) \<Rightarrow> if x = 0 then Inr None else Inr (Some (sig_digit_large (times_ten_loop \<bar>x\<bar>)))
      | NumericText PosInf \<Rightarrow> Inl ValueError
      | NumericText NegInf \<Rightarrow> Inl ValueError
      | NumericText NaN \<Rightarrow> Inl ValueError
      | _ \<Rightarrow> Inr None)"
proof (cases v)
  case (Number f)
  then show ?thesis
  proof (cases f)
    case (Finite x)
    with Number show ?thesis
      by (cases "x = 0") (simp_all add: leading_digit_finite, simp add: leading_digit_def)
  qed (simp_all add: leading_digit_def py_int_def)
next
  case (NumericText f)
  then show ?thesis
  proof (cases f)
    case (Finite x)
    with NumericText show ?thesis
      by (cases "x = 0") (simp_all add: leading_digit_finite, simp add: leading_digit_def)
  qed (simp_all add: leading_digit_def py_int_def)
qed (simp_all add: leading_digit_def)

lemma leading_digit_range: "leading_digit v = Inr (Some d) \<Longrightarrow> 1 \<le> d \<and> d \<le> 9"
  using sig_digit_large_range [OF times_ten_loop_ge_one]
  by (auto simp: leading_digit_cases split: scalar.splits pyfloat.splits if_splits)

text \<open>
  Claim C3 says that \<^verbatim>\<open>leading_digit\<close> returns for every input value, every
  numeric value included, without raising. An infinite float is a numeric value that is
  not missing, converts to a float and is not zero; the loop leaves it alone, its text
  is \<^verbatim>\<open>inf\<close>, and \<^verbatim>\<open>int('i')\<close> raises \<^verbatim>\<open>ValueError\<close> outside the
  \<^verbatim>\<open>try\<close>: the call raises.
\<close>

theorem leading_digit_infinity_raises:
  "leading_digit (Number PosInf) = Inl ValueError \<and> leading_digit (Number NegInf) = Inl ValueError"
  by (simp add: leading_digit_def py_int_def)

text \<open>
  Claim C8: \<^verbatim>\<open>leading_digit\<close> is absent for \<open>0\<close> and for a missing value, it
  is \<open>4\<close> for \<open>-45\<close>, \<open>3\<close> for \<open>0.0032\<close> and \<open>7\<close> for \<open>7\<close>; and a
  digit that is present lies between \<open>1\<close> and \<open>9\<close> and is never \<open>0\<close>.
\<close>

theorem leading_digit_examples_and_range:
  "leading_digit (Number (Finite 0)) = Inr None \<and>
   leading_digit Missing = Inr None \<and>
   leading_digit (Number NaN) = Inr None \<and>
   leading_digit (Number (Finite (- 45))) = Inr (Some 4) \<and>
   leading_digit (Number (Finite (32 / 10000))) = Inr (Some 3) \<and>
   leading_digit (Number (Finite 7)) = Inr (Some 7) \<and>
   (\<forall>v d. leading_digit v = Inr (Some d) \<longrightarrow> 1 \<le> d \<and> d \<le> 9 \<and> d \<noteq> 0)"
proof -
  have "leading_digit (Number (Finite (32 / 10000))) = Inr (Some 3)"
    by (simp add: leading_digit_cases times_ten_loop.simps sig_digit_large.simps)
  moreover have "leading_digit (Number (Finite (- 45))) = Inr (Some 4)"
    by (simp add: leading_digit_cases times_ten_loop.simps sig_digit_large.simps)
  moreover have "leading_digit (Number (Finite 7)) = Inr (Some 7)"
    by (simp add: leading_digit_cases times_ten_loop.simps sig_digit_large.simps)
  moreover have "\<forall>v d. leading_digit v = Inr (Some d) \<longrightarrow> 1 \<le> d \<and> d \<le> 9 \<and> d \<noteq> 0"
    using leading_digit_range by fastforce
  ultimately show ?thesis by (simp add: leading_digit_cases)
qed

theorem leading_digit_examples_and_range_witness:
  "leading_digit (Number (Finite 7)) = Inr (Some 7) \<and> (1::int) \<le> 7 \<and> (7::int) \<le> 9 \<and> (7::int) \<noteq> 0"
  using leading_digit_examples_and_range by simp

subsection \<open>The expected distribution\<close>

lemma benford_term: "0 < d \<Longrightarrow> log 10 (1 + 1 / real_of_int d) = log 10 (real_of_int d + 1) - log 10 (real_of_int d)"
proof -
  assume d: "0 < d"
  then have "1 + 1 / real_of_int d = (real_of_int d + 1) / real_of_int d"
    by (simp add: field_simps)
  then show ?thesis using d by (simp add: log_divide)
qed

lemma upto_1_9: "[1..9] = [1, 2, 3, 4, 5, 6, 7, 8, 9::int]"
  by (simp add: upto.simps)

lemma expected_list:
  "expected_benford_distribution =
     [(1, log 10 2 - log 10 1), (2, log 10 3 - log 10 2), (3, log 10 4 - log 10 3),
      (4, log 10 5 - log 10 4), (5, log 10 6 - log 10 5), (6, log 10 7 - log 10 6),
      (7, log 10 8 - log 10 7), (8, log 10 9 - log 10 8), (9, log 10 10 - log 10 9)]"
  unfolding expected_benford_distribution_def upto_1_9
  using benford_term [of 1] benford_term [of 2] benford_term [of 3] benford_term [of 4] benford_term [of 5]
   benford_term [of 6] benford_term [of 7] benford_term [of 8] benford_term [of 9]
  by simp

lemma expected_sum: "series_sum expected_benford_distribution = 1"
  unfolding expected_list series_sum_def by simp

lemma expected_keys: "map fst expected_benford_distribution = [1..9]"
  unfolding expected_benford_distribution_def by (simp add: comp_def)

lemma getitem_expected:
  "1 \<le> d \<Longrightarrow> d \<le> 9 \<Longrightarrow> getitem expected_benford_distribution d = Inr (log 10 (1 + 1 / real_of_int d))"
proof -
  assume "1 \<le> d" "d \<le> 9"
  then have "d = 1 \<or> d = 2 \<or> d = 3 \<or> d = 4 \<or> d = 5 \<or> d = 6 \<or> d = 7 \<or> d = 8 \<or> d = 9"
    by arith
  then show ?thesis
    unfolding expected_benford_distribution_def upto_1_9 getitem_def by auto
qed

lemma getitem_expected_outside:
  "d < 1 \<or> 9 < d \<Longrightarrow> getitem expected_benford_distribution d = Inl KeyError"
  unfolding expected_benford_distribution_def upto_1_9 getitem_def by auto

text \<open>
  Claim C7: \<^verbatim>\<open>expected_benford_distribution\<close> is the mapping from each digit
  \<open>d\<close> of \<open>1..9\<close> to \<open>log10 (1 + 1/d)\<close>, with no other key; its nine values sum
  to \<open>1\<close> within \<open>1e-9\<close> (in exact arithmetic the sum is \<open>1\<close>). It is a constant:
  there is no input and nothing that can fail.
\<close>

theorem expected_benford_distribution_correct:
  "map fst expected_benford_distribution = [1, 2, 3, 4, 5, 6, 7, 8, 9] \<and>
   (\<forall>d \<in> {1..9}. getitem expected_benford_distribution d = Inr (log 10 (1 + 1 / real_of_int d))) \<and>
   \<bar>sum_list (map snd expected_benford_distribution) - 1\<bar> \<le> 1 / 10 ^ 9"
proof -
  have "map fst expected_benford_distribution = [1, 2, 3, 4, 5, 6, 7, 8, 9]"
    using expected_keys by (simp only: upto_1_9)
  moreover have "\<forall>d \<in> {1..9}. getitem expected_benford_distribution d = Inr (log 10 (1 + 1 / real_of_int d))"
    by (simp add: getitem_expected)
  moreover have "sum_list (map snd expected_benford_distribution) = 1"
    using expected_sum by (simp only: series_sum_def)
  ultimately show ?thesis by simp
qed

theorem expected_benford_distribution_correct_witness:
  "(2::int) \<in> {1..9} \<and> getitem expected_benford_distribution 2 = Inr (log 10 (1 + 1 / 2))"
  using expected_benford_distribution_correct by simp

subsection \<open>The pandas operations on tables indexed by the digits\<close>

lemma map_err_Inr: "(\<And>x. x \<in> set xs \<Longrightarrow> f x = Inr (g x)) \<Longrightarrow> map_err f xs = Inr (map g xs)"
  by (induction xs) simp_all

lemma map_of_table: "map_of (map (\<lambda>k. (k, h k)) ks) k = (if k \<in> set ks then Some (h k) else None)"
  by (induction ks) auto

lemma getitem_table: "k \<in> set ks \<Longrightarrow> getitem (map (\<lambda>k. (k, h k)) ks) k = Inr (h k)"
  by (simp add: getitem_def map_of_table)

lemma map_of_value_counts:
  "map_of (value_counts digits) k = (if k \<in> set digits then Some (int (count_list digits k)) else None)"
  unfolding value_counts_def by (simp add: map_of_table)

lemma sorted_fst_table: "sorted ks \<Longrightarrow> sort_key fst (map (\<lambda>k. (k, h k)) ks) = map (\<lambda>k. (k, h k)) ks"
  by (rule sort_key_id_if_sorted) (simp add: comp_def)

lemma counts_table:
  "sort_index (reindex [1..9] 0 (value_counts digits)) = map (\<lambda>d. (d, int (count_list digits d))) [1..9]"
proof -
  have "reindex [1..9] 0 (value_counts digits) = map (\<lambda>d. (d, int (count_list digits d))) [1..9]"
    unfolding reindex_def by (simp add: map_of_value_counts count_list_0_iff)
  then show ?thesis unfolding sort_index_def by (simp add: sorted_fst_table)
qed

lemma series_div_scalar_table:
  "series_div_scalar (map (\<lambda>d. (d, c d)) ks) t = map (\<lambda>d. (d, real_of_int (c d) / real_of_int t)) ks"
  by (simp add: series_div_scalar_def)

lemma astype_float_table: "astype_float (map (\<lambda>d. (d, c d)) ks) = map (\<lambda>d. (d, real_of_int (c d))) ks"
  by (simp add: astype_float_def)

lemma series_binop_table:
  "series_binop f (map (\<lambda>d. (d, a d)) ks) (map (\<lambda>d. (d, b d)) ks) = map (\<lambda>d. (d, f (a d) (b d))) ks"
  unfolding series_binop_def by (induction ks) simp_all

lemma series_sq_table: "series_sq (map (\<lambda>d. (d, a d)) ks) = map (\<lambda>d. (d, (a d)\<^sup>2)) ks"
  by (simp add: series_sq_def)

lemma series_abs_table: "series_abs (map (\<lambda>d. (d, a d)) ks) = map (\<lambda>d. (d, \<bar>a d\<bar>)) ks"
  by (simp add: series_abs_def)

lemma series_sum_table: "series_sum (map (\<lambda>d. (d, a d)) ks) = sum_list (map a ks)"
  by (simp add: series_sum_def comp_def)

lemma series_sum_int_table: "series_sum_int (map (\<lambda>d. (d, a d)) ks) = sum_list (map a ks)"
  by (simp add: series_sum_int_def comp_def)

lemma series_mean_table: "series_mean (map (\<lambda>d. (d, a d)) ks) = sum_list (map a ks) / real (length ks)"
  by (simp add: series_mean_def comp_def)

lemma expected_table: "expected_benford_distribution = map (\<lambda>d. (d, benford d)) [1..9]"
  by (simp add: expected_benford_distribution_def benford_def)

subsection \<open>The result of \<^verbatim>\<open>analyze_numeric_column\<close> in closed form\<close>

lemma detail_rows_pos:
  "map_err (\<lambda>digit.
      bind_err (getitem (map (\<lambda>d. (d, cnt d)) ks) digit) (\<lambda>c.
      bind_err (getitem (map (\<lambda>d. (d, pr d)) ks) digit) (\<lambda>p.
      bind_err (getitem (map (\<lambda>d. (d, ex d)) ks) digit) (\<lambda>e.
      bind_err (bind_err (getitem (map (\<lambda>d. (d, pr d)) ks) digit) (\<lambda>q. Inr (q - e))) (\<lambda>diff.
        Inr \<lparr>row_sheet = sh, row_column = col, row_digit = digit,
             row_count = c, row_proportion = p, row_expected_proportion = e,
             row_difference = diff\<rparr>))))) ks
   = Inr (map (\<lambda>d. \<lparr>row_sheet = sh, row_column = col, row_digit = d,
             row_count = cnt d, row_proportion = pr d, row_expected_proportion = ex d,
             row_difference = pr d - ex d\<rparr>) ks)"
  by (rule map_err_Inr) (simp add: getitem_table)

lemma detail_rows_zero:
  "map_err (\<lambda>digit.
      bind_err (getitem (map (\<lambda>d. (d, cnt d)) ks) digit) (\<lambda>c.
      bind_err (getitem (map (\<lambda>d. (d, ex d)) ks) digit) (\<lambda>e.
        Inr \<lparr>row_sheet = sh, row_column = col, row_digit = digit,
             row_count = c, row_proportion = 0, row_expected_proportion = e,
             row_difference = - e\<rparr>))) ks
   = Inr (map (\<lambda>d. \<lparr>row_sheet = sh, row_column = col, row_digit = d,
             row_count = cnt d, row_proportion = 0, row_expected_proportion = ex d,
             row_difference = - ex d\<rparr>) ks)"
  by (rule map_err_Inr) (simp add: getitem_table)

lemma expected_counts_table:
  "map_err (\<lambda>digit. bind_err (getitem (map (\<lambda>d. (d, ex d)) ks) digit)
                        (\<lambda>e. Inr (digit, e * t))) ks
        = Inr (map (\<lambda>d. (d, ex d * t)) ks)"
  by (rule map_err_Inr) (simp add: getitem_table)

lemma analyze_result:
  assumes "series_map leading_digit series = Inr mapped"
  shows "analyze_numeric_column series sheet_name column_name =
           Inr (map (detail_of sheet_name column_name (dropna mapped)) [1..9],
                summary_of sheet_name column_name (dropna mapped))"
  unfolding analyze_numeric_column_def assms
  by (simp add: Let_def counts_table expected_table
        astype_float_table series_div_scalar_table detail_rows_pos detail_rows_zero
        expected_counts_table series_binop_table series_sq_table series_abs_table
        series_sum_table series_mean_table summary_of_def detail_of_def)

lemma leading_digit_error: "leading_digit v = Inl e \<Longrightarrow> e = ValueError"
  by (auto simp: leading_digit_cases split: scalar.splits pyfloat.splits if_splits)

lemma leading_digit_cell_digit: "leading_digit v = Inr r \<Longrightarrow> cell_digit v = r"
  by (simp add: cell_digit_def)

lemma cell_digit_Some: "cell_digit v = Some d \<longleftrightarrow> leading_digit v = Inr (Some d)"
  by (auto simp: cell_digit_def split: sum.splits)

lemma cell_digit_range: "cell_digit v = Some d \<Longrightarrow> 1 \<le> d \<and> d \<le> 9"
  using leading_digit_range by (simp add: cell_digit_Some)

lemma series_map_leading_digit:
  "series_map leading_digit series =
     (if \<exists>v \<in> set series. leading_digit v = Inl ValueError then Inl ValueError
      else Inr (map cell_digit series))"
  unfolding series_map_def
proof (induction series)
  case Nil
  show ?case by simp
next
  case (Cons v vs)
  show ?case
  proof (cases "leading_digit v")
    case (Inl e)
    then have "e = ValueError" by (rule leading_digit_error)
    with Inl show ?thesis by simp
  next
    case (Inr r)
    then show ?thesis using Cons.IH by (simp add: leading_digit_cell_digit)
  qed
qed

lemma analyze_numeric_column_closed:
  "analyze_numeric_column series sheet_name column_name =
     (if \<exists>v \<in> set series. leading_digit v = Inl ValueError then Inl ValueError
      else Inr (map (detail_of sheet_name column_name (digits_of series)) [1..9],
                summary_of sheet_name column_name (digits_of series)))"
proof (cases "\<exists>v \<in> set series. leading_digit v = Inl ValueError")
  case True
  then show ?thesis
    unfolding analyze_numeric_column_def by (simp add: series_map_leading_digit)
next
  case False
  then have "series_map leading_digit series = Inr (map cell_digit series)"
    by (simp add: series_map_leading_digit)
  then show ?thesis using False
    by (simp add: analyze_result digits_of_def)
qed

lemma set_dropna: "set (dropna ys) = {x. Some x \<in> set ys}"
  by (induction ys rule: dropna.induct) auto

lemma digits_of_range: "d \<in> set (digits_of series) \<Longrightarrow> 1 \<le> d \<and> d \<le> 9"
  unfolding digits_of_def set_dropna using cell_digit_range by auto

lemma length_dropna: "length (dropna ys) = length (filter (\<lambda>y. y \<noteq> None) ys)"
  by (induction ys rule: dropna.induct) auto

lemma count_list_dropna: "count_list (dropna ys) d = length (filter (\<lambda>y. y = Some d) ys)"
  by (induction ys rule: dropna.induct) auto

lemma length_digits_of:
  "length (digits_of series) = length (filter (\<lambda>v. cell_digit v \<noteq> None) series)"
  unfolding digits_of_def length_dropna by (simp add: filter_map comp_def)

lemma count_list_digits_of:
  "count_list (digits_of series) d = length (filter (\<lambda>v. leading_digit v = Inr (Some d)) series)"
  unfolding digits_of_def count_list_dropna by (simp add: filter_map comp_def cell_digit_Some)

lemma mset_dropna: "mset (dropna ys) = image_mset the (filter_mset (\<lambda>y. y \<noteq> None) (mset ys))"
  by (induction ys rule: dropna.induct) auto

lemma mset_digits_of: "mset series = mset series' \<Longrightarrow> mset (digits_of series) = mset (digits_of series')"
proof -
  assume "mset series = mset series'"
  then have "mset (map cell_digit series) = mset (map cell_digit series')"
    by (metis mset_map)
  then show ?thesis unfolding digits_of_def mset_dropna by simp
qed

lemma count_list_mset: "mset xs = mset ys \<Longrightarrow> count_list xs d = count_list ys d"
  by (metis count_mset)

lemma detail_of_mset: "mset xs = mset ys \<Longrightarrow> detail_of sh col xs = detail_of sh col ys"
proof
  fix d
  assume a: "mset xs = mset ys"
  then have "length xs = length ys" by (rule mset_eq_length)
  moreover have "count_list xs d = count_list ys d" using a by (rule count_list_mset)
  ultimately show "detail_of sh col xs d = detail_of sh col ys d"
    by (simp add: detail_of_def)
qed

lemma summary_of_mset: "mset xs = mset ys \<Longrightarrow> summary_of sh col xs = summary_of sh col ys"
proof -
  assume a: "mset xs = mset ys"
  then have "length xs = length ys" by (rule mset_eq_length)
  moreover have "count_list xs = count_list ys" using a by (auto dest: count_list_mset)
  ultimately show ?thesis by (simp add: summary_of_def Let_def)
qed

lemma sum_counts_1_9:
  assumes "\<And>d. d \<in> set digits \<Longrightarrow> 1 \<le> d \<and> d \<le> 9"
  shows "(\<Sum>d\<leftarrow>[1..9]. int (count_list digits d)) = int (length digits)"
proof -
  have "set digits \<subseteq> {1..9}" using assms by auto
  then have "sum (count_list digits) {1..9} = length digits"
    by (rule sum_count_set) simp
  moreover have "(\<Sum>d\<leftarrow>[1..9]. int (count_list digits d)) = (\<Sum>d\<in>set [1..9]. int (count_list digits d))"
    by (rule sum_list_distinct_conv_sum_set) simp
  moreover have "(\<Sum>d\<in>{1..9}. int (count_list digits d)) = int (sum (count_list digits) {1..9})"
    by simp
  ultimately show ?thesis by simp
qed

lemma analyze_numeric_column_Inr:
  assumes "analyze_numeric_column series sheet_name column_name = Inr (rows, summ)"
  shows "rows = map (detail_of sheet_name column_name (digits_of series)) [1..9]"
    and "summ = summary_of sheet_name column_name (digits_of series)"
    and "\<forall>v \<in> set series. leading_digit v \<noteq> Inl ValueError"
  using assms by (auto simp: analyze_numeric_column_closed split: if_splits)

lemma sum_list_1_9: "(\<Sum>d\<leftarrow>[1..9]. f d) = (\<Sum>d = 1..9. f d)"
  by (simp add: sum_list_distinct_conv_sum_set)

lemma row_digit_detail_of [simp]: "row_digit (detail_of sh col ds d) = d"
  and row_count_detail_of [simp]: "row_count (detail_of sh col ds d) = int (count_list ds d)"
  and row_expected_detail_of [simp]: "row_expected_proportion (detail_of sh col ds d) = benford d"
  by (simp_all add: detail_of_def Let_def)

lemma total_values_summary_of [simp]: "total_values (summary_of sh col ds) = int (length ds)"
  by (simp add: summary_of_def Let_def)

lemma valid_cells:
  "length (filter (\<lambda>v. cell_digit v \<noteq> None) series)
     = length (filter (\<lambda>v. \<exists>d. leading_digit v = Inr (Some d)) series)"
proof -
  have "(\<lambda>v. cell_digit v \<noteq> None) = (\<lambda>v. \<exists>d. leading_digit v = Inr (Some d))"
    by (auto simp: cell_digit_Some [symmetric])
  then show ?thesis by simp
qed

subsection \<open>Evaluation on some cells\<close>

lemma eval_digits [simp]:
  "leading_digit (Number (Finite 1)) = Inr (Some 1)"
  "leading_digit (Number (Finite 2)) = Inr (Some 2)"
  "leading_digit (Number (Finite 3)) = Inr (Some 3)"
  "leading_digit (Number (Finite 100)) = Inr (Some 1)"
  "leading_digit (Number (Finite 25)) = Inr (Some 2)"
  "leading_digit (Number (Finite 0)) = Inr None"
  "leading_digit Missing = Inr None"
  "leading_digit Text = Inr None"
  by (simp_all add: leading_digit_cases times_ten_loop.simps sig_digit_large.simps)

subsection \<open>The column analysis\<close>

text \<open>
  A column without a valid digit, when its analysis returns: the summary has
  \<open>total_values = 0\<close>, \<open>chi_square = 0\<close> and \<open>mad = 0\<close>, and the nine detail rows,
  for the digits \<open>1\<close> to \<open>9\<close> in this order, have proportion \<open>0\<close>, the expected
  proportion \<open>log10 (1 + 1/d)\<close> of their digit and the difference \<open>0\<close> minus it. The
  analysis returns when every cell yields \<^verbatim>\<open>None\<close>.
\<close>

lemma zero_total_when_returned:
  "(analyze_numeric_column series sheet_name column_name = Inr (rows, summ) \<and> total_values summ = 0
      \<longrightarrow> chi_square summ = 0 \<and> mad summ = 0 \<and>
          map row_digit rows = [1, 2, 3, 4, 5, 6, 7, 8, 9] \<and>
          (\<forall>r \<in> set rows.
             row_count r = 0 \<and>
             row_proportion r = 0 \<and>
             row_expected_proportion r = log 10 (1 + 1 / real_of_int (row_digit r)) \<and>
             row_difference r = 0 - log 10 (1 + 1 / real_of_int (row_digit r)))) \<and>
   ((\<forall>v \<in> set series. leading_digit v = Inr None)
      \<longrightarrow> (\<exists>rows summ. analyze_numeric_column series sheet_name column_name = Inr (rows, summ) \<and>
                        total_values summ = 0))"
proof (intro conjI impI)
  assume a: "analyze_numeric_column series sheet_name column_name = Inr (rows, summ) \<and> total_values summ = 0"
  note r = analyze_numeric_column_Inr [OF conjunct1 [OF a]]
  have e: "digits_of series = []" using a unfolding r(2) by simp
  show "chi_square summ = 0" unfolding r(2) e by (simp add: summary_of_def)
  show "mad summ = 0" unfolding r(2) e by (simp add: summary_of_def)
  have "map row_digit rows = [1..9]" unfolding r(1) by (simp add: comp_def)
  then show "map row_digit rows = [1, 2, 3, 4, 5, 6, 7, 8, 9]" by (simp only: upto_1_9)
  show "\<forall>r \<in> set rows.
             row_count r = 0 \<and>
             row_proportion r = 0 \<and>
             row_expected_proportion r = log 10 (1 + 1 / real_of_int (row_digit r)) \<and>
             row_difference r = 0 - log 10 (1 + 1 / real_of_int (row_digit r))"
    unfolding r(1) e by (auto simp: detail_of_def benford_def)
next
  assume n: "\<forall>v \<in> set series. leading_digit v = Inr None"
  then have "\<not> (\<exists>v \<in> set series. leading_digit v = Inl ValueError)" by auto
  moreover have "digits_of series = []"
    using n unfolding digits_of_def by (induction series) (simp_all add: cell_digit_def)
  ultimately show "\<exists>rows summ. analyze_numeric_column series sheet_name column_name = Inr (rows, summ) \<and>
                        total_values summ = 0"
    by (simp add: analyze_numeric_column_closed)
qed

text \<open>
  Claim C1 says that every column whose values yield no valid leading digit gets a
  summary with \<open>chi_square = 0\<close> and \<open>mad = 0\<close>, never an error, and nine detail rows
  with proportion \<open>0\<close> and difference \<open>0\<close> minus the expected proportion. The column
  of the two cells \<open>0.0\<close> and \<open>inf\<close> has no valid leading digit: zero yields
  \<^verbatim>\<open>None\<close> and on the infinite cell \<^verbatim>\<open>leading_digit\<close> raises. The exception
  leaves \<^verbatim>\<open>series.map\<close>, and the analysis of the column raises
  \<^verbatim>\<open>ValueError\<close> instead of returning the zero summary.
\<close>

theorem analyze_numeric_column_zero_digits_raises:
  "leading_digit (Number (Finite 0)) = Inr None \<and>
   leading_digit (Number PosInf) = Inl ValueError \<and>
   analyze_numeric_column [Number (Finite 0), Number PosInf] ''S1'' ''C1'' = Inl ValueError"
  by (simp add: analyze_numeric_column_closed leading_digit_cases)

text \<open>
  Claim C4: when \<open>total_values > 0\<close>, \<open>chi_square\<close> is the sum over the digits
  \<open>d\<close> of \<open>1..9\<close> of \<open>(count d - expected d * total)\<^sup>2 / (expected d * total)\<close>
  and \<open>mad\<close> is one ninth of the sum of \<open>\<bar>count d / total - expected d\<bar>\<close>, where
  \<open>count d\<close> is the number of cells with leading digit \<open>d\<close>, \<open>total\<close> is
  \<open>total_values\<close> and \<open>expected d = log10 (1 + 1/d)\<close>.
\<close>

theorem analyze_numeric_column_chi_square_mad:
  assumes "analyze_numeric_column series sheet_name column_name = Inr (rows, summ)"
    and "total_values summ > 0"
  shows "chi_square summ =
           (\<Sum>d = 1..9.
              (real_of_int (int (length (filter (\<lambda>v. leading_digit v = Inr (Some d)) series)))
                 - log 10 (1 + 1 / real_of_int d) * real_of_int (total_values summ))\<^sup>2
              / (log 10 (1 + 1 / real_of_int d) * real_of_int (total_values summ))) \<and>
         mad summ =
           (1 / 9) *
           (\<Sum>d = 1..9.
              \<bar>real_of_int (int (length (filter (\<lambda>v. leading_digit v = Inr (Some d)) series)))
                 / real_of_int (total_values summ)
               - log 10 (1 + 1 / real_of_int d)\<bar>)"
proof -
  note r = analyze_numeric_column_Inr [OF assms(1)]
  have t: "0 < length (digits_of series)" using assms(2) unfolding r(2) by simp
  show ?thesis
    unfolding r(2) using t
    by (simp add: summary_of_def Let_def sum_list_1_9 count_list_digits_of benford_def)
qed

theorem analyze_numeric_column_chi_square_mad_witness:
  "\<exists>rows summ.
     analyze_numeric_column
       [Number (Finite 1), Number (Finite 1), Number (Finite 1), Number (Finite 2), Number (Finite 2),
        Number (Finite 3)] ''S1'' ''C1'' = Inr (rows, summ) \<and>
     total_values summ = 6 \<and>
     mad summ = (1 / 9) *
       (\<bar>3 / 6 - log 10 (1 + 1 / 1)\<bar> + \<bar>2 / 6 - log 10 (1 + 1 / 2)\<bar> + \<bar>1 / 6 - log 10 (1 + 1 / 3)\<bar>
        + \<bar>0 / 6 - log 10 (1 + 1 / 4)\<bar> + \<bar>0 / 6 - log 10 (1 + 1 / 5)\<bar> + \<bar>0 / 6 - log 10 (1 + 1 / 6)\<bar>
        + \<bar>0 / 6 - log 10 (1 + 1 / 7)\<bar> + \<bar>0 / 6 - log 10 (1 + 1 / 8)\<bar> + \<bar>0 / 6 - log 10 (1 + 1 / 9)\<bar>)"
proof -
  let ?S = "[Number (Finite 1), Number (Finite 1), Number (Finite 1), Number (Finite 2), Number (Finite 2),
        Number (Finite 3)]"
  let ?rows = "map (detail_of ''S1'' ''C1'' (digits_of ?S)) [1..9]"
  let ?summ = "summary_of ''S1'' ''C1'' (digits_of ?S)"
  have h: "analyze_numeric_column ?S ''S1'' ''C1'' = Inr (?rows, ?summ)"
    by (simp add: analyze_numeric_column_closed)
  have t: "total_values ?summ = 6"
    by (simp add: digits_of_def cell_digit_def)
  then have p: "0 < total_values ?summ" by simp
  have "mad ?summ = (1 / 9) *
       (\<bar>3 / 6 - log 10 (1 + 1 / 1)\<bar> + \<bar>2 / 6 - log 10 (1 + 1 / 2)\<bar> + \<bar>1 / 6 - log 10 (1 + 1 / 3)\<bar>
        + \<bar>0 / 6 - log 10 (1 + 1 / 4)\<bar> + \<bar>0 / 6 - log 10 (1 + 1 / 5)\<bar> + \<bar>0 / 6 - log 10 (1 + 1 / 6)\<bar>
        + \<bar>0 / 6 - log 10 (1 + 1 / 7)\<bar> + \<bar>0 / 6 - log 10 (1 + 1 / 8)\<bar> + \<bar>0 / 6 - log 10 (1 + 1 / 9)\<bar>)"
    using conjunct2 [OF analyze_numeric_column_chi_square_mad [OF h p]] unfolding t sum_list_1_9 [symmetric] upto_1_9
    by simp
  note m = this
  show ?thesis
    by (rule exI [of _ ?rows], rule exI [of _ ?summ], intro conjI) (rule h t m)+
qed

text \<open>
  Claim C5: the analysis of a column has exactly nine detail rows, for the digits
  \<open>1\<close> to \<open>9\<close> in ascending order whatever the order of the cells; the nine counts
  add up to \<open>total_values\<close>, which is the number of cells that have a leading digit.
\<close>

theorem analyze_numeric_column_rows_counts:
  assumes "analyze_numeric_column series sheet_name column_name = Inr (rows, summ)"
  shows "map row_digit rows = [1, 2, 3, 4, 5, 6, 7, 8, 9] \<and>
         sum_list (map row_count rows) = total_values summ \<and>
         total_values summ =
           int (length (filter (\<lambda>v. \<exists>d. leading_digit v = Inr (Some d)) series))"
proof -
  note r = analyze_numeric_column_Inr [OF assms]
  have "map row_digit rows = [1..9]" unfolding r(1) by (simp add: comp_def)
  then have a: "map row_digit rows = [1, 2, 3, 4, 5, 6, 7, 8, 9]" by (simp only: upto_1_9)
  have "sum_list (map row_count rows) = (\<Sum>d\<leftarrow>[1..9]. int (count_list (digits_of series) d))"
    unfolding r(1) by (simp add: comp_def)
  also have "\<dots> = int (length (digits_of series))"
    by (rule sum_counts_1_9) (rule digits_of_range)
  finally have b: "sum_list (map row_count rows) = total_values summ" unfolding r(2) by simp
  have "length (digits_of series)
          = length (filter (\<lambda>v. \<exists>d. leading_digit v = Inr (Some d)) series)"
    by (simp only: length_digits_of valid_cells)
  then have c: "total_values summ = int (length (filter (\<lambda>v. \<exists>d. leading_digit v = Inr (Some d)) series))"
    unfolding r(2) by simp
  from a b c show ?thesis by simp
qed

theorem analyze_numeric_column_rows_counts_witness:
  "\<exists>rows summ.
     analyze_numeric_column [Number (Finite 100), Number (Finite 25), Missing, Text, Number (Finite 0)]
       ''S1'' ''C1'' = Inr (rows, summ) \<and>
     map row_digit rows = [1, 2, 3, 4, 5, 6, 7, 8, 9] \<and>
     sum_list (map row_count rows) = total_values summ \<and>
     total_values summ = 2"
proof -
  let ?S = "[Number (Finite 100), Number (Finite 25), Missing, Text, Number (Finite 0)]"
  let ?rows = "map (detail_of ''S1'' ''C1'' (digits_of ?S)) [1..9]"
  let ?summ = "summary_of ''S1'' ''C1'' (digits_of ?S)"
  have h: "analyze_numeric_column ?S ''S1'' ''C1'' = Inr (?rows, ?summ)"
    by (simp add: analyze_numeric_column_closed)
  note c = analyze_numeric_column_rows_counts [OF h]
  have c1: "map row_digit ?rows = [1, 2, 3, 4, 5, 6, 7, 8, 9]"
    using c by (rule conjunct1)
  have c2: "sum_list (map row_count ?rows) = total_values ?summ"
    using c by (rule conjunct1 [OF conjunct2])
  have c3: "total_values ?summ = 2"
    using conjunct2 [OF conjunct2 [OF c]] by simp
  show ?thesis
    by (rule exI [of _ ?rows], rule exI [of _ ?summ], intro conjI) (rule h c1 c2 c3)+
qed

text \<open>
  Claim C9: the analysis does not depend on the order of the cells: two columns with
  the same cells in a different order have the same detail rows and the same summary
  (and the analysis of one raises exactly when that of the other does).
\<close>

theorem analyze_numeric_column_permutation:
  assumes "mset series = mset series'"
  shows "analyze_numeric_column series sheet_name column_name
           = analyze_numeric_column series' sheet_name column_name"
proof -
  have "set series = set series'" using assms by (rule mset_eq_setD)
  moreover have "mset (digits_of series) = mset (digits_of series')"
    using assms by (rule mset_digits_of)
  ultimately show ?thesis
    by (simp add: analyze_numeric_column_closed detail_of_mset [of "digits_of series" "digits_of series'"]
        summary_of_mset [of "digits_of series" "digits_of series'"])
qed

theorem analyze_numeric_column_permutation_witness:
  "mset [Number (Finite 100), Missing, Number (Finite 25)] = mset [Number (Finite 25), Number (Finite 100), Missing] \<and>
   analyze_numeric_column [Number (Finite 100), Missing, Number (Finite 25)] ''S1'' ''C1''
     = analyze_numeric_column [Number (Finite 25), Number (Finite 100), Missing] ''S1'' ''C1''"
proof -
  have h: "mset [Number (Finite 100), Missing, Number (Finite 25)] = mset [Number (Finite 25), Number (Finite 100), Missing]"
    by simp
  show ?thesis using h analyze_numeric_column_permutation [OF h] by blast
qed

subsection \<open>The two copies of the analysis\<close>

lemma times_ten_loop_xl_eq: "times_ten_loop_xl x = times_ten_loop x"
proof (induction x rule: times_ten_loop.induct)
  case (1 x)
  have "times_ten_loop_xl x = (if 0 < x \<and> x < 1 then times_ten_loop_xl (x * 10) else x)"
    by (rule times_ten_loop_xl.simps)
  also have "\<dots> = (if 0 < x \<and> x < 1 then times_ten_loop (x * 10) else x)"
    using "1.IH" by simp
  also have "\<dots> = times_ten_loop x"
    by (rule times_ten_loop.simps [symmetric])
  finally show ?case .
qed

lemma while_lt_one_xl_eq: "while_lt_one_xl = while_lt_one"
proof
  fix f
  show "while_lt_one_xl f = while_lt_one f"
    by (cases f) (simp_all add: times_ten_loop_xl_eq)
qed

lemma leading_digit_xl_eq: "leading_digit_xl = leading_digit"
  by (rule ext) (simp only: leading_digit_xl_def leading_digit_def while_lt_one_xl_eq)

lemma expected_benford_distribution_xl_eq:
  "expected_benford_distribution_xl = expected_benford_distribution"
  by (simp add: expected_benford_distribution_xl_def expected_benford_distribution_def)

lemma analyze_numeric_column_xl_eq: "analyze_numeric_column_xl = analyze_numeric_column"
  by (intro ext)
    (simp only: analyze_numeric_column_xl_def analyze_numeric_column_def leading_digit_xl_eq
      expected_benford_distribution_xl_eq)

text \<open>
  Claim C10: the analysis core is the same in the two scripts: \<^verbatim>\<open>leading_digit\<close>,
  \<^verbatim>\<open>expected_benford_distribution\<close> and \<^verbatim>\<open>analyze_numeric_column\<close> of
  benford\_excel\_report.py return, for every input, what the functions of the same name
  in benford\_analysis.py return (detail rows, summary, or the exception).
\<close>

theorem report_scripts_share_analysis:
  "leading_digit_xl = leading_digit \<and>
   expected_benford_distribution_xl = expected_benford_distribution \<and>
   analyze_numeric_column_xl = analyze_numeric_column"
  by (simp only: leading_digit_xl_eq expected_benford_distribution_xl_eq analyze_numeric_column_xl_eq)

subsection \<open>The tables of the Excel report\<close>

lemma raises_iff: "raises series \<longleftrightarrow> (\<exists>v \<in> set series. leading_digit v = Inl ValueError)"
  by (simp add: raises_def list_ex_iff)

lemma series_map_xl:
  "series_map leading_digit_xl series =
     (if raises series then Inl ValueError else Inr (map cell_digit series))"
  by (simp add: leading_digit_xl_eq series_map_leading_digit raises_iff)

lemma analyze_xl:
  "analyze_numeric_column_xl series sheet_name column_name =
     (if raises series then Inl ValueError
      else Inr (map (detail_of sheet_name column_name (digits_of series)) [1..9],
                summary_of sheet_name column_name (digits_of series)))"
  by (simp add: analyze_numeric_column_xl_eq analyze_numeric_column_closed raises_iff)

lemma columns_loop_xl_closed:
  "columns_loop_xl sheet_name st cols =
     (if list_ex (\<lambda>(column_name, series). raises series) cols then Inl ValueError
      else Inr \<lparr>detail_frames = detail_frames st @
                    map (\<lambda>(column_name, series).
                           map (detail_of sheet_name column_name (digits_of series)) [1..9]) cols,
                summary_rows = summary_rows st @
                    map (\<lambda>(column_name, series).
                           summary_of sheet_name column_name (digits_of series)) cols,
                all_digits = all_digits st @
                    concat (map (\<lambda>(column_name, series). digits_of series) cols)\<rparr>)"
proof (induction cols arbitrary: st)
  case Nil
  show ?case by simp
next
  case (Cons col cols)
  obtain column_name series where col: "col = (column_name, series)" by (cases col)
  show ?case
    unfolding col
    by (simp add: series_map_xl analyze_xl Cons.IH Let_def digits_of_def [symmetric] del: upto.simps)
qed

lemma sheets_loop_xl_closed:
  "sheets_loop_xl st excel =
     (if list_ex (\<lambda>(sheet_name, column_name, series). raises series) (analysed_columns excel)
      then Inl ValueError
      else Inr \<lparr>detail_frames = detail_frames st @
                    map (\<lambda>(sheet_name, column_name, series).
                           map (detail_of sheet_name column_name (digits_of series)) [1..9])
                      (analysed_columns excel),
                summary_rows = summary_rows st @
                    map (\<lambda>(sheet_name, column_name, series).
                           summary_of sheet_name column_name (digits_of series))
                      (analysed_columns excel),
                all_digits = all_digits st @ pooled_digits excel\<rparr>)"
proof (induction excel arbitrary: st)
  case Nil
  show ?case by (simp add: analysed_columns_def pooled_digits_def)
next
  case (Cons sh excel)
  obtain sheet_name numeric_cols where sh: "sh = (sheet_name, numeric_cols)" by (cases sh)
  have ac: "analysed_columns (sh # excel) =
              (if frame_empty numeric_cols then []
               else map (\<lambda>(column_name, series). (sheet_name, column_name, series)) numeric_cols)
              @ analysed_columns excel"
    unfolding sh by (simp add: analysed_columns_def)
  show ?case
  proof (cases "frame_empty numeric_cols")
    case True
    then show ?thesis
      unfolding sh using ac
      by (simp add: Cons.IH pooled_digits_def sh)
  next
    case False
    then show ?thesis
      unfolding sh using ac
      by (simp add: Cons.IH columns_loop_xl_closed pooled_digits_def sh list_ex_iff
          case_prod_unfold comp_def) (auto, force)
  qed
qed

lemma zip_tables:
  "zip ks (zip (map a ks) (zip (map b ks) (map c ks))) = map (\<lambda>d. (d, a d, b d, c d)) ks"
  by (induction ks) simp_all

lemma getitem_column: "map_err (\<lambda>digit. getitem (map (\<lambda>d. (d, a d)) ks) digit) ks = Inr (map a ks)"
  by (rule map_err_Inr) (simp add: getitem_table)

lemma pooled_digits_range: "d \<in> set (pooled_digits excel) \<Longrightarrow> 1 \<le> d \<and> d \<le> 9"
  unfolding pooled_digits_def using digits_of_range by auto

lemma pooled_total:
  "(\<Sum>d\<leftarrow>[1..9]. int (count_list (pooled_digits excel) d)) = int (length (pooled_digits excel))"
  by (rule sum_counts_1_9) (rule pooled_digits_range)

lemma main_xl_closed:
  "main_xl excel =
     (if list_ex (\<lambda>(sheet_name, column_name, series). raises series) (analysed_columns excel)
      then Inl ValueError
      else Inr (concat (map (\<lambda>(sheet_name, column_name, series).
                               map (detail_of sheet_name column_name (digits_of series)) [1..9])
                          (analysed_columns excel)),
                map (\<lambda>(sheet_name, column_name, series).
                       summary_of sheet_name column_name (digits_of series))
                  (analysed_columns excel),
                map (overall_of (pooled_digits excel)) [1..9]))"
proof (cases "pooled_digits excel = []")
  case True
  then show ?thesis
    unfolding main_xl_def sheets_loop_xl_closed
    by (simp add: Let_def counts_table expected_benford_distribution_xl_eq expected_table
        series_sum_int_table pooled_total astype_float_table
        getitem_column zip_tables overall_of_def)
next
  case False
  then have "0 < length (pooled_digits excel)" by simp
  then show ?thesis
    unfolding main_xl_def sheets_loop_xl_closed
    by (simp add: Let_def counts_table expected_benford_distribution_xl_eq expected_table
        series_sum_int_table pooled_total series_div_scalar_table
        getitem_column zip_tables overall_of_def)
qed

lemma main_xl_Inr:
  assumes "main_xl excel = Inr (detail_df, summary_df, overall_table)"
  shows "summary_df = map (\<lambda>(sheet_name, column_name, series).
                       summary_of sheet_name column_name (digits_of series))
                  (analysed_columns excel)"
    and "overall_table = map (overall_of (pooled_digits excel)) [1..9]"
  using assms by (auto simp: main_xl_closed split: if_splits)

lemma sum_total_values:
  "sum_list (map total_values
       (map (\<lambda>(sheet_name, column_name, series). summary_of sheet_name column_name (digits_of series)) cols))
   = int (length (concat (map (\<lambda>(sheet_name, column_name, series). digits_of series) cols)))"
  by (induction cols) (auto simp: case_prod_unfold)

lemma overall_of_sel [simp]:
  "digit (overall_of pooled d) = d"
  "actual_count (overall_of pooled d) = int (count_list pooled d)"
  "expected_percent (overall_of pooled d) = benford d"
  "actual_percent (overall_of pooled d) =
     (if 0 < length pooled then real (count_list pooled d) / real (length pooled) else 0)"
  by (simp_all add: overall_of_def Let_def)

text \<open>
  Claim C6: in the overall distribution of the Excel report, the row of each digit
  \<open>1..9\<close> has as \<open>actual_count\<close> the number of occurrences of the digit among the
  digits of all analysed columns; the nine counts add up to the sum of \<open>total_values\<close>
  over the column summaries; \<open>actual_percent\<close> is the count divided by the overall
  total when that is positive and \<open>0\<close> for every digit otherwise; and
  \<open>expected_percent\<close> is \<open>log10 (1 + 1/d)\<close>.
\<close>

theorem main_xl_overall_distribution:
  assumes "main_xl excel = Inr (detail_df, summary_df, overall_table)"
  shows "map digit overall_table = [1, 2, 3, 4, 5, 6, 7, 8, 9] \<and>
         list_all (\<lambda>r.
             actual_count r = int (count_list (pooled_digits excel) (digit r)) \<and>
             expected_percent r = log 10 (1 + 1 / real_of_int (digit r)) \<and>
             actual_percent r =
               (if 0 < sum_list (map actual_count overall_table)
                then real_of_int (actual_count r) / real_of_int (sum_list (map actual_count overall_table))
                else 0))
           overall_table \<and>
         sum_list (map actual_count overall_table) = sum_list (map total_values summary_df)"
proof -
  note r = main_xl_Inr [OF assms]
  have "map digit overall_table = [1..9]" unfolding r(2) by (simp add: comp_def)
  then have a: "map digit overall_table = [1, 2, 3, 4, 5, 6, 7, 8, 9]" by (simp only: upto_1_9)
  have t: "sum_list (map actual_count overall_table) = int (length (pooled_digits excel))"
    unfolding r(2) using pooled_total [of excel] by (simp add: comp_def)
  have b: "list_all (\<lambda>r.
             actual_count r = int (count_list (pooled_digits excel) (digit r)) \<and>
             expected_percent r = log 10 (1 + 1 / real_of_int (digit r)) \<and>
             actual_percent r =
               (if 0 < sum_list (map actual_count overall_table)
                then real_of_int (actual_count r) / real_of_int (sum_list (map actual_count overall_table))
                else 0))
           overall_table"
    unfolding t unfolding r(2) by (simp add: list_all_iff benford_def)
  have c: "sum_list (map actual_count overall_table) = sum_list (map total_values summary_df)"
    unfolding t unfolding r(1) sum_total_values by (simp add: pooled_digits_def)
  from a b c show ?thesis by (intro conjI)
qed

theorem main_xl_overall_distribution_witness:
  "\<exists>detail_df summary_df overall_table.
     main_xl [(''S1'', [(''C1'', [Number (Finite 1), Number (Finite 1), Number (Finite 1),
                                  Number (Finite 2), Number (Finite 2), Number (Finite 3)]),
                        (''C2'', [Number (Finite 0), Missing, Number (Finite 25)])]),
              (''S2'', [])]
       = Inr (detail_df, summary_df, overall_table) \<and>
     map digit overall_table = [1, 2, 3, 4, 5, 6, 7, 8, 9] \<and>
     map actual_count overall_table = [3, 3, 1, 0, 0, 0, 0, 0, 0] \<and>
     sum_list (map actual_count overall_table) = sum_list (map total_values summary_df) \<and>
     map total_values summary_df = [6, 1]"
proof -
  let ?W = "[(''S1'', [(''C1'', [Number (Finite 1), Number (Finite 1), Number (Finite 1),
                                  Number (Finite 2), Number (Finite 2), Number (Finite 3)]),
                        (''C2'', [Number (Finite 0), Missing, Number (Finite 25)])]),
              (''S2'', [])]"
  have ac: "analysed_columns ?W =
      [(''S1'', ''C1'', [Number (Finite 1), Number (Finite 1), Number (Finite 1),
                                  Number (Finite 2), Number (Finite 2), Number (Finite 3)]),
       (''S1'', ''C2'', [Number (Finite 0), Missing, Number (Finite 25)])]"
    by (simp add: analysed_columns_def frame_empty_def)
  have pd: "pooled_digits ?W = [1, 1, 1, 2, 2, 3, 2]"
    unfolding pooled_digits_def ac by (simp add: digits_of_def cell_digit_def)
  let ?D = "concat (map (\<lambda>(sheet_name, column_name, series).
                               map (detail_of sheet_name column_name (digits_of series)) [1..9])
                          (analysed_columns ?W))"
  let ?S = "map (\<lambda>(sheet_name, column_name, series).
                       summary_of sheet_name column_name (digits_of series))
                  (analysed_columns ?W)"
  let ?O = "map (overall_of (pooled_digits ?W)) [1..9]"
  have h: "main_xl ?W = Inr (?D, ?S, ?O)"
    unfolding main_xl_closed ac by (simp add: raises_def)
  note c = main_xl_overall_distribution [OF h]
  have c1: "map digit ?O = [1, 2, 3, 4, 5, 6, 7, 8, 9]" using c by (rule conjunct1)
  have c3: "sum_list (map actual_count ?O) = sum_list (map total_values ?S)"
    using c by (rule conjunct2 [OF conjunct2])
  have c4: "map actual_count ?O = [3, 3, 1, 0, 0, 0, 0, 0, 0]"
    unfolding pd upto_1_9 by simp
  have c5: "map total_values ?S = [6, 1]"
    unfolding ac by (simp add: digits_of_def cell_digit_def)
  show ?thesis
    by (rule exI [of _ ?D], rule exI [of _ ?S], rule exI [of _ ?O], intro conjI) (rule h c1 c4 c3 c5)+
qed

subsection \<open>The ranking\<close>

lemma sort_values_exists:
  "sort_values_mad_descending df (sort_key (\<lambda>s. - mad s) df)"
proof -
  have "sorted (map (\<lambda>s. - mad s) (sort_key (\<lambda>s. - mad s) df))" by (rule sorted_sort_key)
  then have "sorted_wrt (\<lambda>a b. mad b \<le> mad a) (sort_key (\<lambda>s. - mad s) df)"
    by (simp add: sorted_map)
  then show ?thesis by (simp add: sort_values_mad_descending_def)
qed

lemma top_deviations_iff:
  "top_deviations df ranked \<longleftrightarrow> (\<exists>sorted_df. sort_values_mad_descending df sorted_df \<and> ranked = take 10 sorted_df)"
  by (auto simp: top_deviations.simps head_def)

lemma sorted_wrt_take_drop:
  "sorted_wrt P xs \<Longrightarrow> x \<in> set (take n xs) \<Longrightarrow> y \<in> set (drop n xs) \<Longrightarrow> P x y"
proof -
  assume "sorted_wrt P xs" "x \<in> set (take n xs)" "y \<in> set (drop n xs)"
  moreover have "xs = take n xs @ drop n xs" by simp
  ultimately show "P x y" by (metis sorted_wrt_append)
qed

text \<open>
  Claim C2 says that the ranking returns the summaries sorted non-increasing by
  \<open>mad\<close>, cut to \<open>min 10 n\<close> rows, with rows of equal \<open>mad\<close> in their input
  order. The last part does not hold. Eighteen columns without a valid cell all have
  \<open>mad = 0\<close>; the sort may return them in any order, and the order below (the one an
  in-place quicksort with a median-of-three pivot leaves, once it has more than sixteen
  rows to partition) lists column seventeen third and drops column three.
\<close>

theorem top_deviations_reorders_ties:
  "top_deviations
     (map (\<lambda>c. \<lparr>sheet = ''S1'', column = c, total_values = 0, chi_square = 0, mad = 0\<rparr>)
        [''C01'', ''C02'', ''C03'', ''C04'', ''C05'', ''C06'', ''C07'', ''C08'', ''C09'',
         ''C10'', ''C11'', ''C12'', ''C13'', ''C14'', ''C15'', ''C16'', ''C17'', ''C18''])
     (map (\<lambda>c. \<lparr>sheet = ''S1'', column = c, total_values = 0, chi_square = 0, mad = 0\<rparr>)
        [''C01'', ''C02'', ''C17'', ''C16'', ''C15'', ''C14'', ''C13'', ''C12'', ''C11'', ''C10'']) \<and>
   \<not> ties_keep_input_order
     (map (\<lambda>c. \<lparr>sheet = ''S1'', column = c, total_values = 0, chi_square = 0, mad = 0\<rparr>)
        [''C01'', ''C02'', ''C03'', ''C04'', ''C05'', ''C06'', ''C07'', ''C08'', ''C09'',
         ''C10'', ''C11'', ''C12'', ''C13'', ''C14'', ''C15'', ''C16'', ''C17'', ''C18''])
     (map (\<lambda>c. \<lparr>sheet = ''S1'', column = c, total_values = 0, chi_square = 0, mad = 0\<rparr>)
        [''C01'', ''C02'', ''C17'', ''C16'', ''C15'', ''C14'', ''C13'', ''C12'', ''C11'', ''C10''])"
proof
  let ?f = "\<lambda>c. \<lparr>sheet = ''S1'', column = c, total_values = 0, chi_square = 0, mad = 0\<rparr>"
  let ?df = "[''C01'', ''C02'', ''C03'', ''C04'', ''C05'', ''C06'', ''C07'', ''C08'', ''C09'',
         ''C10'', ''C11'', ''C12'', ''C13'', ''C14'', ''C15'', ''C16'', ''C17'', ''C18'']"
  let ?sorted = "[''C01'', ''C02'', ''C17'', ''C16'', ''C15'', ''C14'', ''C13'', ''C12'', ''C11'',
         ''C10'', ''C09'', ''C08'', ''C07'', ''C06'', ''C05'', ''C04'', ''C03'', ''C18'']"
  let ?out = "[''C01'', ''C02'', ''C17'', ''C16'', ''C15'', ''C14'', ''C13'', ''C12'', ''C11'', ''C10'']"
  have "mset ?sorted = mset ?df" by (simp add: add_mset_commute)
  then have "image_mset ?f (mset ?sorted) = image_mset ?f (mset ?df)" by (rule arg_cong)
  then have "mset (map ?f ?sorted) = mset (map ?f ?df)" by (simp only: mset_map)
  moreover have "sorted_wrt (\<lambda>a b. mad b \<le> mad a) (map ?f ?sorted)"
    by (simp add: sorted_wrt_map)
  ultimately have "sort_values_mad_descending (map ?f ?df) (map ?f ?sorted)"
    by (simp only: sort_values_mad_descending_def simp_thms)
  then have "top_deviations (map ?f ?df) (head 10 (map ?f ?sorted))"
    by (rule top_deviations.intros)
  moreover have "head 10 (map ?f ?sorted) = map ?f ?out" by (simp add: head_def)
  ultimately show "top_deviations (map ?f ?df) (map ?f ?out)" by (simp only:)
next
  show "\<not> ties_keep_input_order
     (map (\<lambda>c. \<lparr>sheet = ''S1'', column = c, total_values = 0, chi_square = 0, mad = 0\<rparr>)
        [''C01'', ''C02'', ''C03'', ''C04'', ''C05'', ''C06'', ''C07'', ''C08'', ''C09'',
         ''C10'', ''C11'', ''C12'', ''C13'', ''C14'', ''C15'', ''C16'', ''C17'', ''C18''])
     (map (\<lambda>c. \<lparr>sheet = ''S1'', column = c, total_values = 0, chi_square = 0, mad = 0\<rparr>)
        [''C01'', ''C02'', ''C17'', ''C16'', ''C15'', ''C14'', ''C13'', ''C12'', ''C11'', ''C10''])"
    by (simp add: ties_keep_input_order_def)
qed

text \<open>
  Claim C2 as amended: the ranking always has a result, and every result is sorted
  non-increasing by \<open>mad\<close>, has \<open>min 10 n\<close> rows, all of them rows of the table, and
  no row left out has a larger \<open>mad\<close> than a row that is kept. The order among rows of
  equal \<open>mad\<close> is left open.
\<close>

theorem top_deviations_sorted_truncated:
  "(\<exists>ranked. top_deviations summary_df ranked) \<and>
   (\<forall>ranked. top_deviations summary_df ranked \<longrightarrow>
      sorted_wrt (\<lambda>a b. mad b \<le> mad a) ranked \<and>
      length ranked = min 10 (length summary_df) \<and>
      mset ranked \<subseteq># mset summary_df \<and>
      (\<forall>s \<in># mset summary_df - mset ranked. \<forall>r \<in> set ranked. mad s \<le> mad r))"
proof (intro conjI allI impI)
  show "\<exists>ranked. top_deviations summary_df ranked"
    using sort_values_exists [of summary_df] by (auto simp: top_deviations_iff)
next
  fix ranked
  assume "top_deviations summary_df ranked"
  then obtain sorted_df where
    s: "mset sorted_df = mset summary_df" "sorted_wrt (\<lambda>a b. mad b \<le> mad a) sorted_df"
    and r: "ranked = take 10 sorted_df"
    by (auto simp: top_deviations_iff sort_values_mad_descending_def)
  have len: "length sorted_df = length summary_df" using s(1) by (rule mset_eq_length)
  show "sorted_wrt (\<lambda>a b. mad b \<le> mad a) ranked"
    unfolding r using s(2) by (rule sorted_wrt_take)
  show "length ranked = min 10 (length summary_df)"
    unfolding r using len by (simp add: min.commute)
  have "mset (take 10 sorted_df) + mset (drop 10 sorted_df) = mset sorted_df"
    by (simp only: mset_append [symmetric] append_take_drop_id)
  then have split: "mset summary_df = mset ranked + mset (drop 10 sorted_df)"
    unfolding r s(1) [symmetric] by (rule sym)
  show "mset ranked \<subseteq># mset summary_df"
    unfolding split by simp
  show "\<forall>s \<in># mset summary_df - mset ranked. \<forall>r \<in> set ranked. mad s \<le> mad r"
  proof (intro ballI)
    fix x y
    assume "x \<in># mset summary_df - mset ranked" "y \<in> set ranked"
    then have "x \<in> set (drop 10 sorted_df)" "y \<in> set (take 10 sorted_df)"
      unfolding split r by simp_all
    with s(2) show "mad x \<le> mad y" by (metis sorted_wrt_take_drop)
  qed
qed

theorem top_deviations_sorted_truncated_witness:
  "top_deviations
     [\<lparr>sheet = ''S1'', column = ''A'', total_values = 4, chi_square = 1, mad = 1 / 10\<rparr>,
      \<lparr>sheet = ''S1'', column = ''B'', total_values = 9, chi_square = 3, mad = 3 / 10\<rparr>]
     [\<lparr>sheet = ''S1'', column = ''B'', total_values = 9, chi_square = 3, mad = 3 / 10\<rparr>,
      \<lparr>sheet = ''S1'', column = ''A'', total_values = 4, chi_square = 1, mad = 1 / 10\<rparr>] \<and>
   sorted_wrt (\<lambda>a b. mad b \<le> mad a)
     [\<lparr>sheet = ''S1'', column = ''B'', total_values = 9, chi_square = 3, mad = 3 / 10\<rparr>,
      \<lparr>sheet = ''S1'', column = ''A'', total_values = 4, chi_square = 1, mad = 1 / 10\<rparr>] \<and>
   length
     [\<lparr>sheet = ''S1'', column = ''B'', total_values = 9, chi_square = 3, mad = 3 / 10\<rparr>,
      \<lparr>sheet = ''S1'', column = ''A'', total_values = 4, chi_square = 1, mad = 1 / 10\<rparr>]
   = min 10 (length
     [\<lparr>sheet = ''S1'', column = ''A'', total_values = 4, chi_square = 1, mad = 1 / 10\<rparr>,
      \<lparr>sheet = ''S1'', column = ''B'', total_values = 9, chi_square = 3, mad = 3 / 10\<rparr>])"
proof -
  let ?a = "\<lparr>sheet = ''S1'', column = ''A'', total_values = 4, chi_square = 1, mad = 1 / 10\<rparr>"
  let ?b = "\<lparr>sheet = ''S1'', column = ''B'', total_values = 9, chi_square = 3, mad = 3 / 10\<rparr>"
  have "sort_values_mad_descending [?a, ?b] [?b, ?a]"
    by (simp add: sort_values_mad_descending_def)
  then have "top_deviations [?a, ?b] (head 10 [?b, ?a])" by (rule top_deviations.intros)
  then have t: "top_deviations [?a, ?b] [?b, ?a]" by (simp add: head_def)
  from conjunct2 [OF top_deviations_sorted_truncated [of "[?a, ?b]"]] t
  have "sorted_wrt (\<lambda>a b. mad b \<le> mad a) [?b, ?a] \<and> length [?b, ?a] = min 10 (length [?a, ?b])"
    by blast
  with t show ?thesis by (intro conjI) (simp_all only: simp_thms)
qed

end
